theory Spec2Isabelle
  imports Main "HOL-Library.Word" "HOL-Library.Sublist"
begin

section \<open>JavaScript strings\<close>

text \<open>
  A JavaScript string is a sequence of UTF-16 code units. The string iterator behind
  \<^verbatim>\<open>for (const char of str)\<close> and \<^verbatim>\<open>[...str]\<close> yields one string per code point: a
  high surrogate directly followed by a low surrogate is yielded as one two-unit string,
  every other code unit (a lone surrogate too) as a one-unit string.
\<close>

type_synonym code_unit = "16 word"
type_synonym jsstring = "code_unit list"

definition isHighSurrogate :: "code_unit \<Rightarrow> bool" where
  "isHighSurrogate u \<longleftrightarrow> 0xD800 \<le> u \<and> u \<le> 0xDBFF"

definition isLowSurrogate :: "code_unit \<Rightarrow> bool" where
  "isLowSurrogate u \<longleftrightarrow> 0xDC00 \<le> u \<and> u \<le> 0xDFFF"

fun chars :: "jsstring \<Rightarrow> jsstring list" where
  "chars [] = []"
| "chars [u] = [[u]]"
| "chars (u # v # rest) =
     (if isHighSurrogate u \<and> isLowSurrogate v then [u, v] # chars rest
      else [u] # chars (v # rest))"

text \<open>\<^verbatim>\<open>s.codePointAt(0)\<close>: \<open>None\<close> is JavaScript's \<^verbatim>\<open>undefined\<close> (the empty string).\<close>

fun codePointAt0 :: "jsstring \<Rightarrow> nat option" where
  "codePointAt0 [] = None"
| "codePointAt0 [u] = Some (unat u)"
| "codePointAt0 (u # v # rest) =
     (if isHighSurrogate u \<and> isLowSurrogate v
      then Some ((unat u - 0xD800) * 0x400 + (unat v - 0xDC00) + 0x10000)
      else Some (unat u))"

datatype error = RangeError | TypeError | WriteError

text \<open>
  \<^verbatim>\<open>String.prototype.repeat\<close> raises a RangeError on a negative count. Numbers are the
  integers here; the engine's limit on the length of a string is not modelled.
\<close>

definition String_repeat :: "jsstring \<Rightarrow> int \<Rightarrow> error + jsstring" where
  "String_repeat s count =
     (if count < 0 then Inl RangeError else Inr (concat (replicate (nat count) s)))"

definition SPACE :: jsstring where
  "SPACE = [0x20]"

section \<open>The width-aware text engine (animation.ts)\<close>

text \<open>
  \<^verbatim>\<open>getVisibleWidth\<close>: the loop over the code points of the string, adding 2 for a
  code point above \<^verbatim>\<open>0x1F300\<close> and 1 for any other.
\<close>

definition getVisibleWidth :: "jsstring \<Rightarrow> int" where
  "getVisibleWidth str =
     fold (\<lambda>char width.
             let code = (case codePointAt0 char of None \<Rightarrow> 0 | Some c \<Rightarrow> c)
             in if code > 0x1F300 then width + 2 else width + 1)
          (chars str) 0"

text \<open>
  \<^verbatim>\<open>padToWidth(str, targetWidth, padChar = ' ')\<close>. The default of the third parameter
  is \<^const>\<open>SPACE\<close>; a call with two arguments is \<open>padToWidth str targetWidth SPACE\<close>.
\<close>

definition padToWidth :: "jsstring \<Rightarrow> int \<Rightarrow> jsstring \<Rightarrow> error + jsstring" where
  "padToWidth str targetWidth padChar =
     (let currentWidth = getVisibleWidth str in
      if currentWidth \<ge> targetWidth then Inr str
      else (let padCount = targetWidth - currentWidth in
            case String_repeat padChar padCount of
              Inl e \<Rightarrow> Inl e
            | Inr pad \<Rightarrow> Inr (str @ pad)))"

text \<open>
  \<^verbatim>\<open>visibleSubstring\<close>: the loop over \<^verbatim>\<open>[...str]\<close> with its three variables
  \<^verbatim>\<open>currentPos\<close>, \<^verbatim>\<open>result\<close> and \<^verbatim>\<open>resultWidth\<close>; \<^verbatim>\<open>continue\<close> goes on with the
  next unit, \<^verbatim>\<open>break\<close> returns the result collected so far.
\<close>

fun visibleSubstring_loop ::
  "jsstring list \<Rightarrow> int \<Rightarrow> int \<Rightarrow> int \<Rightarrow> jsstring \<Rightarrow> int \<Rightarrow> jsstring" where
  "visibleSubstring_loop [] start len currentPos result resultWidth = result"
| "visibleSubstring_loop (char # rest) start len currentPos result resultWidth =
     (let charWidth = getVisibleWidth char in
      if currentPos + charWidth \<le> start
      then visibleSubstring_loop rest start len (currentPos + charWidth) result resultWidth
      else if resultWidth \<ge> len then result
      else visibleSubstring_loop rest start len (currentPos + charWidth)
             (result @ char) (resultWidth + charWidth))"

definition visibleSubstring :: "jsstring \<Rightarrow> int \<Rightarrow> int \<Rightarrow> jsstring" where
  "visibleSubstring str start len = visibleSubstring_loop (chars str) start len 0 [] 0"

section \<open>The marquee animator (animation.ts)\<close>

text \<open>The ANSI escape codes of the table \<^verbatim>\<open>ANSI\<close>, as strings of code units.\<close>

definition CLEAR_LINE :: jsstring where
  "CLEAR_LINE = [0x1B, 0x5B, 0x32, 0x4B]"

definition CURSOR_TO_START :: jsstring where
  "CURSOR_TO_START = [0x1B, 0x5B, 0x30, 0x47]"

definition HIDE_CURSOR :: jsstring where
  "HIDE_CURSOR = [0x1B, 0x5B, 0x3F, 0x32, 0x35, 0x6C]"

definition SHOW_CURSOR :: jsstring where
  "SHOW_CURSOR = [0x1B, 0x5B, 0x3F, 0x32, 0x35, 0x68]"

definition NEWLINE :: jsstring where
  "NEWLINE = [0x0A]"

text \<open>The decimal digits of a natural number, as a template literal prints it.\<close>

function digits :: "nat \<Rightarrow> jsstring" where
  "digits n = (if n < 10 then [of_nat (48 + n)]
               else digits (n div 10) @ [of_nat (48 + n mod 10)])"
  by pat_completeness auto
termination
  by (relation "measure id") auto

definition MOVE_UP :: "nat \<Rightarrow> jsstring" where
  "MOVE_UP n = [0x1B, 0x5B] @ digits n @ [0x41]"






text \<open>\<^verbatim>\<open>bannerText.split('\n')\<close>: never the empty list.\<close>

fun split_nl :: "jsstring \<Rightarrow> jsstring list" where
  "split_nl [] = [[]]"
| "split_nl (u # rest) =
     (if u = 0x0A then [] # split_nl rest
      else (case split_nl rest of [] \<Rightarrow> [[u]] | l # ls \<Rightarrow> (u # l) # ls))"



text \<open>
  The display line of one banner line at one tick, as both \<^verbatim>\<open>runAnimation\<close> and
  \<^verbatim>\<open>runSingleCycle\<close> compute it inside their loop over the lines.
\<close>

definition displayLine :: "jsstring \<Rightarrow> int \<Rightarrow> int \<Rightarrow> error + jsstring" where
  "displayLine line terminalWidth offset =
     (case (if offset \<ge> 0
            then (case String_repeat SPACE offset of
                    Inl e \<Rightarrow> Inl e
                  | Inr spaces \<Rightarrow>
                      Inr (spaces @ visibleSubstring line 0 (terminalWidth - offset)))
            else (let startPos = - offset
                  in Inr (visibleSubstring line startPos terminalWidth))) of
        Inl e \<Rightarrow> Inl e
      | Inr d \<Rightarrow> padToWidth d terminalWidth SPACE)"

text \<open>
  The terminal, as far as the animator acts on it: the chunks written so far, whether
  the cursor is hidden, the number of calls of \<^verbatim>\<open>process.stdout.write\<close> and the number
  of pauses (\<^verbatim>\<open>await sleep(speed)\<close>), one per tick. A write can throw: the environment
  says which calls do, by their position in the sequence of all calls.
\<close>

record terminal =
  written :: "jsstring list"
  cursorHidden :: bool
  attempts :: nat
  ticks :: nat

record env =
  columns :: "int option"
  writeFails :: "nat \<Rightarrow> bool"

type_synonym io = "terminal \<Rightarrow> error option \<times> terminal"

definition stdout_write :: "env \<Rightarrow> jsstring \<Rightarrow> io" where
  "stdout_write e chunk t =
     (if writeFails e (attempts t) then (Some WriteError, t\<lparr>attempts := Suc (attempts t)\<rparr>)
      else (None, t\<lparr>written := written t @ [chunk],
                     cursorHidden := (if chunk = HIDE_CURSOR then True
                                      else if chunk = SHOW_CURSOR then False
                                      else cursorHidden t),
                     attempts := Suc (attempts t)\<rparr>))"

definition sleep :: "int option \<Rightarrow> io" where
  "sleep ms t = (None, t\<lparr>ticks := Suc (ticks t)\<rparr>)"

definition skip :: io where
  "skip t = (None, t)"

text \<open>Sequencing: a statement that throws ends the block.\<close>

definition andThen :: "io \<Rightarrow> io \<Rightarrow> io" where
  "andThen f g t = (case f t of (Some e, t1) \<Rightarrow> (Some e, t1) | (None, t1) \<Rightarrow> g t1)"


text \<open>The loop \<^verbatim>\<open>for (let i = 0; i < bannerHeight; i++)\<close> of one frame.\<close>

function draw_lines :: "env \<Rightarrow> jsstring list \<Rightarrow> nat \<Rightarrow> int \<Rightarrow> int \<Rightarrow> nat \<Rightarrow> io" where
  "draw_lines e paddedLines bannerHeight terminalWidth offset i t =
     (if i < bannerHeight then
        (if i < length paddedLines then
           (case displayLine (paddedLines ! i) terminalWidth offset of
              Inl err \<Rightarrow> (Some err, t)
            | Inr d \<Rightarrow>
                (case stdout_write e (CLEAR_LINE @ d) t of
                   (Some err, t1) \<Rightarrow> (Some err, t1)
                 | (None, t1) \<Rightarrow>
                     (case (if int i < int bannerHeight - 1 then stdout_write e NEWLINE t1
                            else (None, t1)) of
                        (Some err, t2) \<Rightarrow> (Some err, t2)
                      | (None, t2) \<Rightarrow>
                          draw_lines e paddedLines bannerHeight terminalWidth offset (Suc i) t2)))
         else (Some TypeError, t))
      else (None, t))"
  by pat_completeness auto
termination
  by (relation "measure (\<lambda>(e, paddedLines, bannerHeight, terminalWidth, offset, i, t).
                           bannerHeight - i)") auto

text \<open>One tick: the lines, the cursor back to the first row of the banner, the pause.\<close>

definition draw_frame ::
  "env \<Rightarrow> jsstring list \<Rightarrow> nat \<Rightarrow> int \<Rightarrow> int option \<Rightarrow> int \<Rightarrow> io" where
  "draw_frame e paddedLines bannerHeight terminalWidth speed frame =
     (let offset = terminalWidth - frame in
      andThen (draw_lines e paddedLines bannerHeight terminalWidth offset 0)
        (andThen (if bannerHeight > 1 then stdout_write e (MOVE_UP (bannerHeight - 1)) else skip)
           (andThen (stdout_write e CURSOR_TO_START) (sleep speed))))"




section \<open>Notions of the specification\<close>

text \<open>The width class of one unit of the iteration: 2 above the threshold, else 1.\<close>

definition unitWidth :: "jsstring \<Rightarrow> int" where
  "unitWidth char =
     (if (case codePointAt0 char of None \<Rightarrow> 0 | Some c \<Rightarrow> c) > 0x1F300 then 2 else 1)"

text \<open>
  The two phases the specification describes, on the units of a string: skip every
  unit that ends at or before \<open>start\<close>; then collect units until the collected width has
  reached \<open>len\<close>.
\<close>

fun skip_units :: "jsstring list \<Rightarrow> int \<Rightarrow> int \<Rightarrow> jsstring list" where
  "skip_units [] pos start = []"
| "skip_units (c # cs) pos start =
     (if pos + unitWidth c \<le> start then skip_units cs (pos + unitWidth c) start else c # cs)"

fun collect_units :: "jsstring list \<Rightarrow> int \<Rightarrow> int \<Rightarrow> jsstring list" where
  "collect_units [] acc len = []"
| "collect_units (c # cs) acc len =
     (if acc \<ge> len then [] else c # collect_units cs (acc + unitWidth c) len)"

text \<open>
  A unit straddles the visual position \<open>p\<close> when it begins before \<open>p\<close> and ends after
  it.
\<close>

definition straddles :: "jsstring \<Rightarrow> int \<Rightarrow> bool" where
  "straddles s p \<longleftrightarrow>
     (\<exists>i < length (chars s).
        getVisibleWidth (concat (take i (chars s))) < p \<and>
        p < getVisibleWidth (concat (take (Suc i) (chars s))))"


text \<open>
  The display line of the specification for one banner line at one tick: from
  \<open>offset = terminalWidth - frame\<close>, either \<open>offset\<close> spaces and the visible substring
  from 0 of width \<open>terminalWidth - offset\<close>, or the visible substring from \<open>- offset\<close> of
  width \<open>terminalWidth\<close>; then spaces up to \<open>terminalWidth\<close> columns.
\<close>

definition spec_displayLine :: "jsstring \<Rightarrow> int \<Rightarrow> int \<Rightarrow> jsstring" where
  "spec_displayLine line terminalWidth frame =
     (let offset = terminalWidth - frame;
          shown = (if 0 \<le> offset
                   then replicate (nat offset) 0x20 @
                          visibleSubstring line 0 (terminalWidth - offset)
                   else visibleSubstring line (- offset) terminalWidth)
      in shown @ replicate (nat (terminalWidth - getVisibleWidth shown)) 0x20)"

text \<open>
  The chunks one tick writes: every line after a clear-line code, a line feed between
  two lines, the move up over \<open>h - 1\<close> rows when there are several lines, and the return
  to the first column. A cycle writes the chunks of the frames \<open>frame, \<dots>, totalFrames - 1\<close>.
\<close>

fun line_chunks :: "jsstring list \<Rightarrow> int \<Rightarrow> int \<Rightarrow> jsstring list" where
  "line_chunks [] terminalWidth frame = []"
| "line_chunks [l] terminalWidth frame = [CLEAR_LINE @ spec_displayLine l terminalWidth frame]"
| "line_chunks (l # l' # ls) terminalWidth frame =
     (CLEAR_LINE @ spec_displayLine l terminalWidth frame) # NEWLINE #
       line_chunks (l' # ls) terminalWidth frame"

definition frame_chunks :: "jsstring list \<Rightarrow> int \<Rightarrow> int \<Rightarrow> jsstring list" where
  "frame_chunks paddedLines terminalWidth frame =
     line_chunks paddedLines terminalWidth frame @
     (if length paddedLines > 1 then [MOVE_UP (length paddedLines - 1)] else []) @
     [CURSOR_TO_START]"


text \<open>
  What a block of the animator does with the terminal, for a list of chunks and \<open>m\<close>
  pauses: if none of its writes throws, it ends normally, having written exactly these
  chunks and paused \<open>m\<close> times; if the write number \<open>k\<close> is the first to throw, it throws
  there, without a further write.
\<close>

definition block :: "env \<Rightarrow> io \<Rightarrow> jsstring list \<Rightarrow> nat \<Rightarrow> bool" where
  "block e f chunks m \<longleftrightarrow>
     (\<forall>t. ((\<forall>j < length chunks. \<not> writeFails e (attempts t + j)) \<longrightarrow>
             fst (f t) = None \<and> written (snd (f t)) = written t @ chunks \<and>
             attempts (snd (f t)) = attempts t + length chunks \<and>
             ticks (snd (f t)) = ticks t + m) \<and>
          (\<forall>k < length chunks.
             (\<forall>j < k. \<not> writeFails e (attempts t + j)) \<and> writeFails e (attempts t + k) \<longrightarrow>
             fst (f t) = Some WriteError \<and> attempts (snd (f t)) = attempts t + Suc k \<and>
             ticks (snd (f t)) \<le> ticks t + m))"



text \<open>
  A string cut into \<open>a\<close> and \<open>b\<close> is cut inside a code point when \<open>a\<close> ends with a
  high surrogate and \<open>b\<close> begins with a low surrogate: the two code units encode one
  code point.
\<close>

definition cuts_pair :: "jsstring \<Rightarrow> jsstring \<Rightarrow> bool" where
  "cuts_pair a b \<longleftrightarrow>
     a \<noteq> [] \<and> b \<noteq> [] \<and> isHighSurrogate (last a) \<and> isLowSurrogate (hd b)"


declare digits.simps [simp del]

declare draw_lines.simps [simp del]


section \<open>Units of the string iterator\<close>

lemma concat_chars: "concat (chars s) = s"
  by (induction s rule: chars.induct) auto

lemma chars_nonempty_units: "c \<in> set (chars s) \<Longrightarrow> c \<noteq> []"
  by (induction s rule: chars.induct) (auto split: if_splits)

lemma chars_unit_shape:
  "c \<in> set (chars s) \<Longrightarrow>
     (\<exists>u. c = [u]) \<or> (\<exists>u v. c = [u, v] \<and> isHighSurrogate u \<and> isLowSurrogate v)"
  by (induction s rule: chars.induct) (auto split: if_splits)

lemma chars_of_unit: "c \<in> set (chars s) \<Longrightarrow> chars c = [c]"
  using chars_unit_shape [of c s] by auto

lemma length_chars_le: "length (chars s) \<le> length s"
  by (induction s rule: chars.induct) auto

lemma chars_eq_Nil [simp]: "chars s = [] \<longleftrightarrow> s = []"
  by (cases s rule: chars.cases) auto

lemma chars_tail: "chars s = c # cs \<Longrightarrow> chars (concat cs) = cs"
  by (cases s rule: chars.cases) (auto simp: concat_chars split: if_splits)

lemma chars_drop: "chars (concat (drop i (chars s))) = drop i (chars s)"
proof (induction i arbitrary: s)
  case 0
  show ?case by (simp add: concat_chars)
next
  case (Suc i)
  show ?case
  proof (cases "chars s")
    case Nil
    then show ?thesis by simp
  next
    case (Cons c cs)
    then have "chars (concat cs) = cs" by (rule chars_tail)
    with Suc [of "concat cs"] Cons show ?thesis by simp
  qed
qed

lemma concat_take_prefix: "prefix (concat (take j xs)) (concat xs)"
proof -
  have "concat xs = concat (take j xs) @ concat (drop j xs)"
    by (metis append_take_drop_id concat_append)
  then show ?thesis by (metis prefixI)
qed

lemma concat_units_Nil:
  "concat (take j (chars s)) = [] \<Longrightarrow> take j (chars s) = []"
proof -
  assume a: "concat (take j (chars s)) = []"
  have "\<forall>c \<in> set (take j (chars s)). c \<noteq> []"
    using chars_nonempty_units in_set_takeD by fast
  with a show ?thesis by (cases "take j (chars s)") auto
qed

lemma chars_take: "chars (concat (take j (chars s))) = take j (chars s)"
proof (induction s arbitrary: j rule: chars.induct)
  case 1
  show ?case by simp
next
  case (2 u)
  show ?case by (cases j) auto
next
  case (3 u v rest)
  show ?case
  proof (cases j)
    case 0
    then show ?thesis by simp
  next
    case (Suc k)
    show ?thesis
    proof (cases "isHighSurrogate u \<and> isLowSurrogate v")
      case True
      with Suc "3.IH"(1) [of k] show ?thesis by simp
    next
      case False
      let ?X = "concat (take k (chars (v # rest)))"
      have ih: "chars ?X = take k (chars (v # rest))"
        using False "3.IH"(2) by blast
      have pre: "prefix ?X (v # rest)"
        using concat_take_prefix [of k "chars (v # rest)"] by (simp only: concat_chars)
      show ?thesis
      proof (cases ?X)
        case Nil
        then have "take k (chars (v # rest)) = []" by (rule concat_units_Nil)
        with False Suc show ?thesis by simp
      next
        case (Cons x X')
        with pre have "x = v" by (simp add: prefix_def)
        with Cons False have "chars (u # ?X) = [u] # chars ?X" by simp
        with ih have "chars (u # ?X) = [u] # take k (chars (v # rest))" by simp
        moreover from False have "chars (u # v # rest) = [u] # chars (v # rest)" by auto
        ultimately show ?thesis using Suc by simp
      qed
    qed
  qed
qed

lemma chars_run: "chars (concat (take j (drop i (chars s)))) = take j (drop i (chars s))"
proof -
  have "chars (concat (take j (chars (concat (drop i (chars s)))))) =
        take j (chars (concat (drop i (chars s))))"
    by (rule chars_take)
  then show ?thesis by (simp only: chars_drop)
qed

section \<open>Widths\<close>

lemma fold_width_sum:
  "fold (\<lambda>c w. if P c then w + 2 else w + (1::int)) cs a =
     a + sum_list (map (\<lambda>c. if P c then 2 else 1) cs)"
  by (induction cs arbitrary: a) auto

lemma getVisibleWidth_sum: "getVisibleWidth s = sum_list (map unitWidth (chars s))"
proof -
  have "getVisibleWidth s =
        fold (\<lambda>c w. if (case codePointAt0 c of None \<Rightarrow> 0 | Some c \<Rightarrow> c) > 0x1F300
                     then w + 2 else w + (1::int)) (chars s) 0"
    by (simp add: getVisibleWidth_def Let_def)
  also have "\<dots> = sum_list (map unitWidth (chars s))"
    unfolding fold_width_sum unitWidth_def by simp
  finally show ?thesis .
qed

lemma unitWidth_cases: "unitWidth c = 1 \<or> unitWidth c = 2"
  by (simp add: unitWidth_def)

lemma unitWidth_pos: "1 \<le> unitWidth c"
  by (simp add: unitWidth_def)

lemma unitWidth_le2: "unitWidth c \<le> 2"
  by (simp add: unitWidth_def)

lemma getVisibleWidth_unit: "c \<in> set (chars s) \<Longrightarrow> getVisibleWidth c = unitWidth c"
  by (simp add: getVisibleWidth_sum chars_of_unit)

lemma sum_unitWidth_ge: "int (length cs) \<le> sum_list (map unitWidth cs)"
proof (induction cs)
  case Nil
  show ?case by simp
next
  case (Cons c cs)
  with unitWidth_pos [of c] show ?case by simp
qed

lemma getVisibleWidth_nonneg: "0 \<le> getVisibleWidth s"
  using sum_unitWidth_ge [of "chars s"] by (simp add: getVisibleWidth_sum)

lemma getVisibleWidth_Nil: "getVisibleWidth [] = 0"
  by (simp add: getVisibleWidth_def)

lemma units_of_chars: "\<forall>c \<in> set (chars s). getVisibleWidth c = unitWidth c"
  by (simp add: getVisibleWidth_unit)

lemma width_take: "getVisibleWidth (concat (take i (chars s))) = sum_list (map unitWidth (take i (chars s)))"
  by (simp add: getVisibleWidth_sum chars_take)

lemma width_run:
  "getVisibleWidth (concat (take j (drop i (chars s)))) =
     sum_list (map unitWidth (take j (drop i (chars s))))"
  by (simp add: getVisibleWidth_sum chars_run)

section \<open>Padding\<close>

lemma String_repeat_nonneg: "0 \<le> n \<Longrightarrow> String_repeat p n = Inr (concat (replicate (nat n) p))"
  by (simp add: String_repeat_def)

lemma padToWidth_eq:
  "padToWidth s target padChar =
     Inr (if target \<le> getVisibleWidth s then s
          else s @ concat (replicate (nat (target - getVisibleWidth s)) padChar))"
  by (simp add: padToWidth_def Let_def String_repeat_def)

lemma concat_replicate_SPACE: "concat (replicate n SPACE) = replicate n 0x20"
  by (induction n) (simp_all add: SPACE_def)

lemma chars_append_no_low:
  "(\<And>v t'. t = v # t' \<Longrightarrow> \<not> isLowSurrogate v) \<Longrightarrow> chars (s @ t) = chars s @ chars t"
proof (induction s rule: chars.induct)
  case 1
  show ?case by simp
next
  case (2 u)
  then show ?case by (cases t) auto
next
  case (3 u v rest)
  then show ?case by auto
qed

lemma space_not_low: "\<not> isLowSurrogate 0x20"
  by (simp add: isLowSurrogate_def)

lemma chars_spaces: "chars (replicate n 0x20) = replicate n [0x20]"
proof (induction n)
  case 0
  show ?case by simp
next
  case (Suc n)
  have "chars ([0x20] @ replicate n 0x20) = chars [0x20] @ chars (replicate n 0x20)"
    by (rule chars_append_no_low) (cases n; simp add: space_not_low)
  with Suc show ?case by simp
qed

lemma unitWidth_space: "unitWidth [0x20] = 1"
  by (simp add: unitWidth_def)

lemma width_spaces: "getVisibleWidth (replicate n 0x20) = int n"
  by (simp add: getVisibleWidth_sum chars_spaces unitWidth_space sum_list_replicate)

lemma width_append_spaces:
  "getVisibleWidth (s @ replicate n 0x20) = getVisibleWidth s + int n"
proof -
  have "chars (s @ replicate n 0x20) = chars s @ chars (replicate n 0x20)"
    by (rule chars_append_no_low) (cases n; simp add: space_not_low)
  then show ?thesis
    using width_spaces [of n] by (simp add: getVisibleWidth_sum)
qed

lemma padToWidth_SPACE:
  "padToWidth s target SPACE =
     Inr (if target \<le> getVisibleWidth s then s
          else s @ replicate (nat (target - getVisibleWidth s)) 0x20)"
  by (simp add: padToWidth_eq concat_replicate_SPACE)

lemma padToWidth_SPACE_width:
  "padToWidth s target SPACE = Inr p \<Longrightarrow> getVisibleWidth p = max target (getVisibleWidth s)"
  by (auto simp: padToWidth_SPACE width_append_spaces split: if_splits)

section \<open>The loop of visibleSubstring\<close>

lemma collect_units_done: "len \<le> acc \<Longrightarrow> collect_units cs acc len = []"
  by (cases cs) auto

lemma loop_collect:
  "start \<le> pos \<Longrightarrow> \<forall>c \<in> set cs. getVisibleWidth c = unitWidth c \<Longrightarrow>
     visibleSubstring_loop cs start len pos result rw = result @ concat (collect_units cs rw len)"
proof (induction cs arbitrary: pos result rw)
  case Nil
  show ?case by simp
next
  case (Cons c cs)
  have w: "getVisibleWidth c = unitWidth c" using Cons.prems(2) by simp
  have nskip: "\<not> pos + unitWidth c \<le> start"
    using Cons.prems(1) unitWidth_pos [of c] by linarith
  show ?case
  proof (cases "len \<le> rw")
    case True
    with nskip w show ?thesis by simp
  next
    case False
    have "visibleSubstring_loop cs start len (pos + unitWidth c) (result @ c) (rw + unitWidth c) =
          (result @ c) @ concat (collect_units cs (rw + unitWidth c) len)"
      using Cons.prems nskip by (intro Cons.IH) auto
    with False nskip w show ?thesis by simp
  qed
qed

lemma loop_skip:
  "\<forall>c \<in> set cs. getVisibleWidth c = unitWidth c \<Longrightarrow>
     visibleSubstring_loop cs start len pos [] 0 =
       concat (collect_units (skip_units cs pos start) 0 len)"
proof (induction cs arbitrary: pos)
  case Nil
  show ?case by simp
next
  case (Cons c cs)
  have w: "getVisibleWidth c = unitWidth c" using Cons.prems by simp
  show ?case
  proof (cases "pos + unitWidth c \<le> start")
    case True
    with Cons w show ?thesis by simp
  next
    case False
    show ?thesis
    proof (cases "len \<le> 0")
      case True
      with False w show ?thesis by simp
    next
      case len: False
      have "visibleSubstring_loop cs start len (pos + unitWidth c) ([] @ c) (0 + unitWidth c) =
            ([] @ c) @ concat (collect_units cs (0 + unitWidth c) len)"
        using Cons.prems False by (intro loop_collect) auto
      with False len w show ?thesis by simp
    qed
  qed
qed

lemma visibleSubstring_phases:
  "visibleSubstring s start len = concat (collect_units (skip_units (chars s) 0 start) 0 len)"
  unfolding visibleSubstring_def by (rule loop_skip) (rule units_of_chars)

lemma skip_units_all:
  "pos + sum_list (map unitWidth cs) \<le> start \<Longrightarrow> skip_units cs pos start = []"
proof (induction cs arbitrary: pos)
  case Nil
  show ?case by simp
next
  case (Cons c cs)
  have "0 \<le> sum_list (map unitWidth cs)"
    using sum_unitWidth_ge [of cs] by linarith
  with Cons.prems have "pos + unitWidth c \<le> start" by simp
  moreover have "skip_units cs (pos + unitWidth c) start = []"
    using Cons.prems by (intro Cons.IH) simp
  ultimately show ?case by simp
qed

lemma unitWidth_single: "unitWidth [u] = 1"
proof -
  have "unat u < 2 ^ 16" using unsigned_less [of u, where 'a = nat] by simp
  then show ?thesis by (simp add: unitWidth_def)
qed

lemma width_le_length: "getVisibleWidth s \<le> int (length s)"
proof (induction s rule: chars.induct)
  case 1
  show ?case by (simp add: getVisibleWidth_Nil)
next
  case (2 u)
  show ?case by (simp add: getVisibleWidth_sum unitWidth_single)
next
  case (3 u v rest)
  show ?case
  proof (cases "isHighSurrogate u \<and> isLowSurrogate v")
    case True
    then have "chars (u # v # rest) = [u, v] # chars rest" by simp
    with "3.IH"(1) [OF True] unitWidth_le2 [of "[u, v]"] show ?thesis
      by (simp add: getVisibleWidth_sum)
  next
    case False
    then have "chars (u # v # rest) = [u] # chars (v # rest)" by auto
    with "3.IH"(2) [OF False] show ?thesis
      by (simp add: getVisibleWidth_sum unitWidth_single)
  qed
qed

section \<open>Claims about width and padding\<close>

lemma fire_unit: "chars [0xD83D, 0xDD25] = [[0xD83D, 0xDD25]]"
  by (simp add: isHighSurrogate_def isLowSurrogate_def)

lemma fire_width: "unitWidth [0xD83D, 0xDD25] = 2"
  by (simp add: unitWidth_def isHighSurrogate_def isLowSurrogate_def)

lemma letter_width: "getVisibleWidth [0x61] = 1"
  by (simp add: getVisibleWidth_sum unitWidth_single)

lemma sample_chars: "chars [0x61, 0xD83D, 0xDD25] = [[0x61], [0xD83D, 0xDD25]]"
  by (simp add: isHighSurrogate_def isLowSurrogate_def)

lemma sample_width: "getVisibleWidth [0x61, 0xD83D, 0xDD25] = 3"
  unfolding getVisibleWidth_sum sample_chars by (simp add: fire_width unitWidth_single)

lemma count_wide:
  "sum_list (map unitWidth cs) = int (length cs) + int (length (filter (\<lambda>c. unitWidth c = 2) cs))"
proof (induction cs)
  case Nil
  show ?case by simp
next
  case (Cons c cs)
  with unitWidth_cases [of c] show ?case by auto
qed

text \<open>
  C6 (width monotonicity). The visual width of a string is at least the number of units
  its iteration yields: every unit counts 1 or 2, and the width is the number of units
  plus the number of wide units.
\<close>

theorem width_monotonicity:
  "int (length (chars s)) \<le> getVisibleWidth s \<and>
   (\<forall>c \<in> set (chars s). getVisibleWidth c = 1 \<or> getVisibleWidth c = 2) \<and>
   getVisibleWidth s =
     int (length (chars s)) + int (length (filter (\<lambda>c. getVisibleWidth c = 2) (chars s)))"
proof -
  have a: "int (length (chars s)) \<le> getVisibleWidth s"
    using sum_unitWidth_ge [of "chars s"] by (simp add: getVisibleWidth_sum)
  have b: "\<forall>c \<in> set (chars s). getVisibleWidth c = 1 \<or> getVisibleWidth c = 2"
    using unitWidth_cases by (simp add: getVisibleWidth_unit)
  have "filter (\<lambda>c. getVisibleWidth c = 2) (chars s) = filter (\<lambda>c. unitWidth c = 2) (chars s)"
    by (rule filter_cong) (simp_all add: getVisibleWidth_unit)
  then have c: "getVisibleWidth s =
      int (length (chars s)) + int (length (filter (\<lambda>c. getVisibleWidth c = 2) (chars s)))"
    using count_wide [of "chars s"] by (simp add: getVisibleWidth_sum)
  from a b c show ?thesis by blast
qed

theorem width_monotonicity_witness:
  "chars [0x61, 0xD83D, 0xDD25] = [[0x61], [0xD83D, 0xDD25]] \<and>
   getVisibleWidth [0x61, 0xD83D, 0xDD25] = 3 \<and>
   int (length (chars [0x61, 0xD83D, 0xDD25])) \<le> getVisibleWidth [0x61, 0xD83D, 0xDD25] \<and>
   (getVisibleWidth [0xD83D, 0xDD25] = 1 \<or> getVisibleWidth [0xD83D, 0xDD25] = 2)"
proof -
  note t = width_monotonicity [of "[0x61, 0xD83D, 0xDD25]", unfolded sample_chars sample_width]
  show ?thesis unfolding sample_chars sample_width using t by simp
qed

text \<open>
  C7 (padding). When the string is already as wide as the target, \<open>padToWidth\<close> returns it
  unchanged; otherwise it returns the string followed by the pad string repeated
  \<open>target - width\<close> times. In both cases the result begins with the whole string: nothing
  is truncated, and nothing is raised.
\<close>

theorem padToWidth_contract:
  "(target \<le> getVisibleWidth s \<longrightarrow> padToWidth s target padChar = Inr s) \<and>
   (getVisibleWidth s < target \<longrightarrow>
      padToWidth s target padChar =
        Inr (s @ concat (replicate (nat (target - getVisibleWidth s)) padChar))) \<and>
   (\<exists>r. padToWidth s target padChar = Inr r \<and> prefix s r)"
  by (simp add: padToWidth_eq)

theorem padToWidth_contract_witness:
  "getVisibleWidth [0x61] < 3 \<and>
   padToWidth [0x61] 3 SPACE = Inr [0x61, 0x20, 0x20] \<and>
   0 \<le> getVisibleWidth [0x61] \<and>
   padToWidth [0x61] 0 SPACE = Inr [0x61]"
  using padToWidth_contract [of 3 "[0x61]" SPACE] padToWidth_contract [of 0 "[0x61]" SPACE]
  by (simp add: letter_width SPACE_def eval_nat_numeral)

text \<open>
  C5 (pad idempotence). For a target \<open>n\<close> that is at least the visual width of \<open>s\<close>,
  padding with the default pad character gives a string that padding to \<open>n\<close> again
  leaves as it is.
\<close>

theorem pad_idempotence:
  "getVisibleWidth s \<le> n \<Longrightarrow>
     \<exists>p. padToWidth s n SPACE = Inr p \<and> padToWidth p n SPACE = Inr p"
proof -
  assume "getVisibleWidth s \<le> n"
  obtain p where p: "padToWidth s n SPACE = Inr p"
    by (simp add: padToWidth_SPACE)
  then have "getVisibleWidth p = max n (getVisibleWidth s)"
    by (rule padToWidth_SPACE_width)
  then have "padToWidth p n SPACE = Inr p"
    by (simp add: padToWidth_SPACE)
  with p show ?thesis by blast
qed

theorem pad_idempotence_witness:
  "getVisibleWidth [0x61] \<le> 3 \<and>
   padToWidth [0x61] 3 SPACE = Inr [0x61, 0x20, 0x20] \<and>
   padToWidth [0x61, 0x20, 0x20] 3 SPACE = Inr [0x61, 0x20, 0x20]"
proof -
  have h: "getVisibleWidth [0x61] \<le> 3" by (simp add: letter_width)
  have p: "padToWidth [0x61] 3 SPACE = Inr [0x61, 0x20, 0x20]"
    by (simp add: padToWidth_SPACE letter_width eval_nat_numeral)
  from pad_idempotence [OF h] p h show ?thesis by simp
qed

section \<open>Claims about edge cases and errors\<close>

lemma visibleSubstring_Nil: "visibleSubstring [] start len = []"
  by (simp add: visibleSubstring_def)

lemma visibleSubstring_past_end:
  "getVisibleWidth s \<le> start \<Longrightarrow> visibleSubstring s start len = []"
proof -
  assume "getVisibleWidth s \<le> start"
  then have "skip_units (chars s) 0 start = []"
    by (intro skip_units_all) (simp add: getVisibleWidth_sum)
  then show ?thesis by (simp add: visibleSubstring_phases)
qed

lemma visibleSubstring_no_length: "len \<le> 0 \<Longrightarrow> visibleSubstring s start len = []"
  by (simp add: visibleSubstring_phases collect_units_done)

lemma letter_unit: "chars [0x61] = [[0x61]]"
  by simp

text \<open>
  C8 (edge cases). The empty string has width 0; padding the empty string gives pad
  strings only; a visible substring of the empty string is empty; for every string, the
  visible substring is empty when \<open>start\<close> is at or beyond its visual width (so also
  when it is at or beyond its number of code units), and when the length is 0, whatever
  \<open>start\<close> is.
\<close>

theorem edge_cases:
  "getVisibleWidth [] = 0 \<and>
   padToWidth [] target padChar = Inr (concat (replicate (nat target) padChar)) \<and>
   visibleSubstring [] start len = [] \<and>
   (getVisibleWidth s \<le> start \<longrightarrow> visibleSubstring s start len = []) \<and>
   (int (length s) \<le> start \<longrightarrow> visibleSubstring s start len = []) \<and>
   visibleSubstring s start 0 = []"
proof -
  have "int (length s) \<le> start \<longrightarrow> visibleSubstring s start len = []"
    using width_le_length [of s] visibleSubstring_past_end [of s start len] by linarith
  then show ?thesis
    by (simp add: getVisibleWidth_Nil padToWidth_eq visibleSubstring_Nil
        visibleSubstring_past_end visibleSubstring_no_length)
qed

theorem edge_cases_witness:
  "getVisibleWidth [0x61, 0xD83D, 0xDD25] \<le> 3 \<and>
   visibleSubstring [0x61, 0xD83D, 0xDD25] 3 2 = [] \<and>
   int (length [0x61, 0xD83D, 0xDD25 :: code_unit]) \<le> 3 \<and>
   visibleSubstring [0x61, 0xD83D, 0xDD25] 3 0 = [] \<and>
   padToWidth [] 2 SPACE = Inr [0x20, 0x20]"
  using edge_cases [of 2 SPACE 3 2 "[0x61, 0xD83D, 0xDD25]"]
  by (simp add: sample_width SPACE_def eval_nat_numeral)

text \<open>
  C9 (negative width arguments), as the code has it: a negative width argument is not
  refused. With a negative target \<open>padToWidth\<close> returns its string unchanged, and with a
  negative length \<open>visibleSubstring\<close> returns the empty string.
\<close>

theorem negative_width_no_raise:
  "(target < 0 \<longrightarrow> padToWidth s target padChar = Inr s) \<and>
   (len < 0 \<longrightarrow> visibleSubstring s start len = [])"
  using getVisibleWidth_nonneg [of s]
  by (simp add: padToWidth_eq visibleSubstring_no_length)

theorem negative_width_no_raise_witness:
  "(-1 :: int) < 0 \<and> padToWidth [0x61] (-1) SPACE = Inr [0x61] \<and>
   visibleSubstring [0x61] 0 (-1) = []"
  using negative_width_no_raise [of "-1" "[0x61]" SPACE "-1" 0] by simp

text \<open>
  The claim C9 as it is stated fails: with a negative width argument both operations
  return a value.
\<close>

theorem negative_width_counterexample:
  "padToWidth [0x61] (-1) SPACE = Inr [0x61] \<and> visibleSubstring [0x61] 0 (-1) = []"
  by (simp add: padToWidth_SPACE letter_width visibleSubstring_def letter_width)

section \<open>The run that visibleSubstring returns\<close>

lemma skip_units_drop:
  "\<exists>i \<le> length cs. skip_units cs pos start = drop i cs \<and>
     (pos \<le> start \<longrightarrow> pos + sum_list (map unitWidth (take i cs)) \<le> start) \<and>
     (i < length cs \<longrightarrow> start < pos + sum_list (map unitWidth (take (Suc i) cs)))"
proof (induction cs arbitrary: pos)
  case Nil
  show ?case by simp
next
  case (Cons c cs)
  show ?case
  proof (cases "pos + unitWidth c \<le> start")
    case True
    obtain i where i: "i \<le> length cs" "skip_units cs (pos + unitWidth c) start = drop i cs"
      "pos + unitWidth c + sum_list (map unitWidth (take i cs)) \<le> start"
      "i < length cs \<longrightarrow> start < pos + unitWidth c + sum_list (map unitWidth (take (Suc i) cs))"
      using Cons [of "pos + unitWidth c"] True by blast
    have "Suc i \<le> length (c # cs) \<and> skip_units (c # cs) pos start = drop (Suc i) (c # cs) \<and>
       (pos \<le> start \<longrightarrow> pos + sum_list (map unitWidth (take (Suc i) (c # cs))) \<le> start) \<and>
       (Suc i < length (c # cs) \<longrightarrow>
          start < pos + sum_list (map unitWidth (take (Suc (Suc i)) (c # cs))))"
      using i True by (simp add: add.assoc)
    then show ?thesis by blast
  next
    case False
    then have "0 \<le> length (c # cs) \<and> skip_units (c # cs) pos start = drop 0 (c # cs) \<and>
       (pos \<le> start \<longrightarrow> pos + sum_list (map unitWidth (take 0 (c # cs))) \<le> start) \<and>
       (0 < length (c # cs) \<longrightarrow> start < pos + sum_list (map unitWidth (take (Suc 0) (c # cs))))"
      by simp
    then show ?thesis by blast
  qed
qed

lemma collect_units_take:
  "\<exists>j \<le> length cs. collect_units cs acc len = take j cs \<and>
     (j = length cs \<or> len \<le> acc + sum_list (map unitWidth (take j cs))) \<and>
     (0 < j \<longrightarrow> acc + sum_list (map unitWidth (take (j - 1) cs)) < len)"
proof (induction cs arbitrary: acc)
  case Nil
  show ?case by simp
next
  case (Cons c cs)
  show ?case
  proof (cases "len \<le> acc")
    case True
    then have "0 \<le> length (c # cs) \<and> collect_units (c # cs) acc len = take 0 (c # cs) \<and>
       (0 = length (c # cs) \<or> len \<le> acc + sum_list (map unitWidth (take 0 (c # cs)))) \<and>
       ((0::nat) < 0 \<longrightarrow> acc + sum_list (map unitWidth (take (0 - 1) (c # cs))) < len)"
      by simp
    then show ?thesis by blast
  next
    case False
    obtain j where j: "j \<le> length cs" "collect_units cs (acc + unitWidth c) len = take j cs"
      "j = length cs \<or> len \<le> acc + unitWidth c + sum_list (map unitWidth (take j cs))"
      "0 < j \<longrightarrow> acc + unitWidth c + sum_list (map unitWidth (take (j - 1) cs)) < len"
      using Cons [of "acc + unitWidth c"] by blast
    have last: "acc + sum_list (map unitWidth (take j (c # cs))) < len"
    proof (cases j)
      case 0
      with False show ?thesis by simp
    next
      case (Suc j')
      with j(4) show ?thesis by (simp add: add.assoc)
    qed
    have "Suc j \<le> length (c # cs) \<and> collect_units (c # cs) acc len = take (Suc j) (c # cs) \<and>
       (Suc j = length (c # cs) \<or>
          len \<le> acc + sum_list (map unitWidth (take (Suc j) (c # cs)))) \<and>
       (0 < Suc j \<longrightarrow> acc + sum_list (map unitWidth (take (Suc j - 1) (c # cs))) < len)"
      using j False last by (simp add: add.assoc)
    then show ?thesis by blast
  qed
qed

lemma visibleSubstring_run:
  "\<exists>i j. i \<le> length (chars s) \<and> j \<le> length (chars s) - i \<and>
     visibleSubstring s start len = concat (take j (drop i (chars s))) \<and>
     (0 \<le> start \<longrightarrow> sum_list (map unitWidth (take i (chars s))) \<le> start) \<and>
     (i < length (chars s) \<longrightarrow> start < sum_list (map unitWidth (take (Suc i) (chars s)))) \<and>
     (j = length (chars s) - i \<or>
        len \<le> sum_list (map unitWidth (take j (drop i (chars s))))) \<and>
     (0 < j \<longrightarrow> sum_list (map unitWidth (take (j - 1) (drop i (chars s)))) < len)"
proof -
  obtain i where i: "i \<le> length (chars s)" "skip_units (chars s) 0 start = drop i (chars s)"
    "0 \<le> start \<longrightarrow> sum_list (map unitWidth (take i (chars s))) \<le> start"
    "i < length (chars s) \<longrightarrow> start < sum_list (map unitWidth (take (Suc i) (chars s)))"
    using skip_units_drop [of "chars s" 0 start] by auto
  obtain j where j: "j \<le> length (drop i (chars s))"
    "collect_units (drop i (chars s)) 0 len = take j (drop i (chars s))"
    "j = length (drop i (chars s)) \<or>
       len \<le> sum_list (map unitWidth (take j (drop i (chars s))))"
    "0 < j \<longrightarrow> sum_list (map unitWidth (take (j - 1) (drop i (chars s)))) < len"
    using collect_units_take [of "drop i (chars s)" 0 len] by auto
  have "visibleSubstring s start len = concat (take j (drop i (chars s)))"
    by (simp add: visibleSubstring_phases i(2) j(2))
  with i j show ?thesis by (intro exI [of _ i] exI [of _ j]) simp
qed

lemma prefix_width_mono:
  "a \<le> b \<Longrightarrow> sum_list (map unitWidth (take a cs)) \<le> sum_list (map unitWidth (take b cs))"
proof -
  assume "a \<le> b"
  then have "take b cs = take a cs @ take (b - a) (drop a cs)"
    by (metis le_add_diff_inverse take_add)
  moreover have "0 \<le> sum_list (map unitWidth (take (b - a) (drop a cs)))"
    using sum_unitWidth_ge [of "take (b - a) (drop a cs)"] by linarith
  ultimately show ?thesis by simp
qed

lemma prefix_width_strict:
  "a < b \<Longrightarrow> b \<le> length cs \<Longrightarrow>
     sum_list (map unitWidth (take a cs)) < sum_list (map unitWidth (take b cs))"
proof -
  assume ab: "a < b" and b: "b \<le> length cs"
  then have "take b cs = take a cs @ take (b - a) (drop a cs)"
    by (metis le_add_diff_inverse less_imp_le take_add)
  moreover have "int (length (take (b - a) (drop a cs))) \<le>
      sum_list (map unitWidth (take (b - a) (drop a cs)))"
    by (rule sum_unitWidth_ge)
  moreover have "length (take (b - a) (drop a cs)) = b - a"
    using ab b by simp
  ultimately show ?thesis using ab by simp
qed

section \<open>Claims about visibleSubstring\<close>

lemma fire3_chars:
  "chars [0xD83D, 0xDD25, 0xD83D, 0xDD25, 0xD83D, 0xDD25] =
     [[0xD83D, 0xDD25], [0xD83D, 0xDD25], [0xD83D, 0xDD25]]"
  by (simp add: isHighSurrogate_def isLowSurrogate_def)

lemma fire_visible_width: "getVisibleWidth [0xD83D, 0xDD25] = 2"
  unfolding getVisibleWidth_sum fire_unit by (simp add: fire_width)

lemma fire3_substring:
  "visibleSubstring [0xD83D, 0xDD25, 0xD83D, 0xDD25, 0xD83D, 0xDD25] 2 2 = [0xD83D, 0xDD25]"
  unfolding visibleSubstring_def fire3_chars by (simp add: fire_visible_width)

lemma low_not_high: "isLowSurrogate v \<Longrightarrow> \<not> isHighSurrogate v"
  by (auto simp: isLowSurrogate_def isHighSurrogate_def word_le_nat_alt)

lemma cuts_pair_append: "a \<noteq> [] \<Longrightarrow> cuts_pair (x @ a) b = cuts_pair a b"
  by (simp add: cuts_pair_def)

lemma cuts_pair_single: "cuts_pair [u] (v # b) = (isHighSurrogate u \<and> isLowSurrogate v)"
  by (simp add: cuts_pair_def)

lemma cuts_pair_low: "isLowSurrogate v \<Longrightarrow> \<not> cuts_pair [u, v] b"
  by (simp add: cuts_pair_def low_not_high)

lemma chars_no_cut:
  "\<not> cuts_pair (concat (take k (chars s))) (concat (drop k (chars s)))"
proof (induction s arbitrary: k rule: chars.induct)
  case 1
  show ?case by (simp add: cuts_pair_def)
next
  case (2 u)
  show ?case by (cases k) (simp_all add: cuts_pair_def)
next
  case (3 u v rest)
  show ?case
  proof (cases k)
    case 0
    then show ?thesis by (simp add: cuts_pair_def)
  next
    case (Suc n)
    show ?thesis
    proof (cases "isHighSurrogate u \<and> isLowSurrogate v")
      case True
      let ?a = "concat (take n (chars rest))" and ?b = "concat (drop n (chars rest))"
      from True have c: "chars (u # v # rest) = [u, v] # chars rest" by simp
      have t: "concat (take k (chars (u # v # rest))) = [u, v] @ ?a"
        and d: "concat (drop k (chars (u # v # rest))) = ?b"
        unfolding c Suc by simp_all
      show ?thesis
      proof (cases "?a = []")
        case e: True
        from True have "\<not> cuts_pair [u, v] ?b" by (simp add: cuts_pair_low)
        then show ?thesis unfolding t d e by simp
      next
        case False
        then have "cuts_pair ([u, v] @ ?a) ?b = cuts_pair ?a ?b" by (rule cuts_pair_append)
        with "3.IH"(1) [OF True, of n] show ?thesis unfolding t d by simp
      qed
    next
      case False
      let ?a = "concat (take n (chars (v # rest)))"
      let ?b = "concat (drop n (chars (v # rest)))"
      from False have c: "chars (u # v # rest) = [u] # chars (v # rest)" by auto
      have t: "concat (take k (chars (u # v # rest))) = [u] @ ?a"
        and d: "concat (drop k (chars (u # v # rest))) = ?b"
        unfolding c Suc by simp_all
      show ?thesis
      proof (cases "?a = []")
        case e: True
        then have "take n (chars (v # rest)) = []" by (rule concat_units_Nil)
        then have "n = 0" by simp
        then have b: "?b = v # rest" by (simp add: concat_chars)
        from False have "\<not> cuts_pair [u] (v # rest)" by (simp add: cuts_pair_single)
        then show ?thesis unfolding t d e b by simp
      next
        case ne: False
        then have "cuts_pair ([u] @ ?a) ?b = cuts_pair ?a ?b" by (rule cuts_pair_append)
        with "3.IH"(2) [OF False, of n] show ?thesis unfolding t d by simp
      qed
    qed
  qed
qed

lemma run_decomposition:
  "concat (take i cs) @ concat (take j (drop i cs)) @ concat (drop (i + j) cs) = concat cs"
proof -
  have "take i cs @ take j (drop i cs) @ drop (i + j) cs = cs"
    by (metis append_take_drop_id drop_drop add.commute)
  then have "concat (take i cs @ take j (drop i cs) @ drop (i + j) cs) = concat cs"
    by simp
  then show ?thesis by simp
qed

lemma take_run: "concat (take i cs) @ concat (take j (drop i cs)) = concat (take (i + j) cs)"
  by (simp add: take_add)

lemma drop_run: "concat (take j (drop i cs)) @ concat (drop (i + j) cs) = concat (drop i cs)"
proof -
  have "take j (drop i cs) @ drop j (drop i cs) = drop i cs" by (rule append_take_drop_id)
  then have "take j (drop i cs) @ drop (i + j) cs = drop i cs" by (simp add: add.commute)
  then have "concat (take j (drop i cs) @ drop (i + j) cs) = concat (drop i cs)" by simp
  then show ?thesis by simp
qed

lemma fire3_straddled:
  "visibleSubstring [0xD83D, 0xDD25, 0xD83D, 0xDD25, 0xD83D, 0xDD25] 1 1 = [0xD83D, 0xDD25]"
  unfolding visibleSubstring_def fire3_chars by (simp add: fire_visible_width)

text \<open>
  C1 (visible substring), as the code has it. For \<open>start \<ge> 0\<close> and \<open>len \<ge> 0\<close> the result
  is a run of whole code points of the string, in order: there are \<open>i\<close> and \<open>j\<close> such that
  the first \<open>i\<close> units, exactly those whose cumulative width ends at or before \<open>start\<close>,
  are skipped, and of the remaining units the first \<open>j\<close> are returned, exactly those
  before which the collected width was still below \<open>len\<close> (all of them when the string
  ends first). The result is the concatenation of these units as they are; the string is
  the skipped part, the result and the rest, and neither end of the result lies between
  a high surrogate and the low surrogate after it: no code point of two code units is
  split.
\<close>

theorem visibleSubstring_contract:
  assumes "0 \<le> start" and "0 \<le> len"
  shows "\<exists>i j. i \<le> length (chars s) \<and> j \<le> length (drop i (chars s)) \<and>
     (\<forall>k < length (chars s).
        (k < i) = (getVisibleWidth (concat (take (Suc k) (chars s))) \<le> start)) \<and>
     (\<forall>m < length (drop i (chars s)).
        (m < j) = (getVisibleWidth (concat (take m (drop i (chars s)))) < len)) \<and>
     visibleSubstring s start len = concat (take j (drop i (chars s))) \<and>
     chars (visibleSubstring s start len) = take j (drop i (chars s)) \<and>
     s = concat (take i (chars s)) @ visibleSubstring s start len @
           concat (drop (i + j) (chars s)) \<and>
     \<not> cuts_pair (concat (take i (chars s)))
         (visibleSubstring s start len @ concat (drop (i + j) (chars s))) \<and>
     \<not> cuts_pair (concat (take i (chars s)) @ visibleSubstring s start len)
         (concat (drop (i + j) (chars s)))"
proof -
  let ?cs = "chars s"
  let ?W = "\<lambda>xs. sum_list (map unitWidth xs)"
  from visibleSubstring_run [of s start len] obtain i j where
    r: "i \<le> length ?cs \<and> j \<le> length ?cs - i \<and>
        visibleSubstring s start len = concat (take j (drop i ?cs)) \<and>
        (0 \<le> start \<longrightarrow> ?W (take i ?cs) \<le> start) \<and>
        (i < length ?cs \<longrightarrow> start < ?W (take (Suc i) ?cs)) \<and>
        (j = length ?cs - i \<or> len \<le> ?W (take j (drop i ?cs))) \<and>
        (0 < j \<longrightarrow> ?W (take (j - 1) (drop i ?cs)) < len)"
    by (elim exE)
  from r have ij: "i \<le> length ?cs" "j \<le> length ?cs - i" by simp_all
  from r have run: "visibleSubstring s start len = concat (take j (drop i ?cs))" by simp
  from r assms(1) have skipped: "?W (take i ?cs) \<le> start" by simp
  from r have next_unit: "i < length ?cs \<longrightarrow> start < ?W (take (Suc i) ?cs)" by simp
  from r have full: "j = length ?cs - i \<or> len \<le> ?W (take j (drop i ?cs))" by simp
  from r have before: "0 < j \<longrightarrow> ?W (take (j - 1) (drop i ?cs)) < len" by simp
  have a: "(k < i) = (getVisibleWidth (concat (take (Suc k) ?cs)) \<le> start)"
    if "k < length ?cs" for k
  proof (cases "k < i")
    case True
    then have "?W (take (Suc k) ?cs) \<le> ?W (take i ?cs)"
      by (intro prefix_width_mono) simp
    with skipped True show ?thesis by (simp add: width_take)
  next
    case False
    then have "?W (take (Suc i) ?cs) \<le> ?W (take (Suc k) ?cs)"
      by (intro prefix_width_mono) simp
    moreover from False that have "i < length ?cs" by simp
    ultimately show ?thesis using next_unit False by (simp add: width_take)
  qed
  have b: "(m < j) = (getVisibleWidth (concat (take m (drop i ?cs))) < len)"
    if "m < length (drop i ?cs)" for m
  proof (cases "m < j")
    case True
    then have "?W (take m (drop i ?cs)) \<le> ?W (take (j - 1) (drop i ?cs))"
      by (intro prefix_width_mono) simp
    with before True show ?thesis by (simp add: width_run)
  next
    case False
    then have "?W (take j (drop i ?cs)) \<le> ?W (take m (drop i ?cs))"
      by (intro prefix_width_mono) simp
    moreover from False that have "j \<noteq> length ?cs - i" by simp
    ultimately show ?thesis using full False by (simp add: width_run)
  qed
  have c: "chars (visibleSubstring s start len) = take j (drop i ?cs)"
    by (simp only: run chars_run)
  have d: "s = concat (take i ?cs) @ visibleSubstring s start len @ concat (drop (i + j) ?cs)"
    unfolding run run_decomposition by (simp only: concat_chars)
  have e: "\<not> cuts_pair (concat (take i ?cs))
      (visibleSubstring s start len @ concat (drop (i + j) ?cs))"
    unfolding run drop_run by (rule chars_no_cut)
  have f: "\<not> cuts_pair (concat (take i ?cs) @ visibleSubstring s start len)
      (concat (drop (i + j) ?cs))"
    unfolding run take_run by (rule chars_no_cut)
  from ij have ij': "i \<le> length ?cs \<and> j \<le> length (drop i ?cs)" by simp
  from a have a': "\<forall>k < length ?cs.
      (k < i) = (getVisibleWidth (concat (take (Suc k) ?cs)) \<le> start)" by blast
  from b have b': "\<forall>m < length (drop i ?cs).
      (m < j) = (getVisibleWidth (concat (take m (drop i ?cs))) < len)" by blast
  show ?thesis
    by (rule exI [of _ i], rule exI [of _ j]) (intro conjI ij' [THEN conjunct1]
        ij' [THEN conjunct2] a' b' run c d e f)
qed

theorem visibleSubstring_contract_witness:
  "(0::int) \<le> 1 \<and>
   visibleSubstring [0xD83D, 0xDD25, 0xD83D, 0xDD25, 0xD83D, 0xDD25] 1 1 = [0xD83D, 0xDD25] \<and>
   visibleSubstring [0xD83D, 0xDD25, 0xD83D, 0xDD25, 0xD83D, 0xDD25] 2 2 = [0xD83D, 0xDD25] \<and>
   (\<exists>i j. [0xD83D, 0xDD25, 0xD83D, 0xDD25, 0xD83D, 0xDD25] =
       concat (take i (chars [0xD83D, 0xDD25, 0xD83D, 0xDD25, 0xD83D, 0xDD25])) @
       [0xD83D, 0xDD25] @
       concat (drop (i + j) (chars [0xD83D, 0xDD25, 0xD83D, 0xDD25, 0xD83D, 0xDD25])) \<and>
     \<not> cuts_pair (concat (take i (chars [0xD83D, 0xDD25, 0xD83D, 0xDD25, 0xD83D, 0xDD25])))
       ([0xD83D, 0xDD25] @
        concat (drop (i + j) (chars [0xD83D, 0xDD25, 0xD83D, 0xDD25, 0xD83D, 0xDD25]))) \<and>
     \<not> cuts_pair (concat (take i (chars [0xD83D, 0xDD25, 0xD83D, 0xDD25, 0xD83D, 0xDD25])) @
         [0xD83D, 0xDD25])
       (concat (drop (i + j) (chars [0xD83D, 0xDD25, 0xD83D, 0xDD25, 0xD83D, 0xDD25]))))"
proof -
  let ?s = "[0xD83D, 0xDD25, 0xD83D, 0xDD25, 0xD83D, 0xDD25] :: jsstring"
  have h: "(0::int) \<le> 1" by simp
  from visibleSubstring_contract [OF h h, of ?s] obtain i j where
    d: "?s = concat (take i (chars ?s)) @ visibleSubstring ?s 1 1 @
          concat (drop (i + j) (chars ?s))"
    and e: "\<not> cuts_pair (concat (take i (chars ?s)))
          (visibleSubstring ?s 1 1 @ concat (drop (i + j) (chars ?s)))"
    and f: "\<not> cuts_pair (concat (take i (chars ?s)) @ visibleSubstring ?s 1 1)
          (concat (drop (i + j) (chars ?s)))"
    by (elim exE conjE)
  have "\<exists>i j. ?s = concat (take i (chars ?s)) @ [0xD83D, 0xDD25] @
          concat (drop (i + j) (chars ?s)) \<and>
      \<not> cuts_pair (concat (take i (chars ?s)))
          ([0xD83D, 0xDD25] @ concat (drop (i + j) (chars ?s))) \<and>
      \<not> cuts_pair (concat (take i (chars ?s)) @ [0xD83D, 0xDD25])
          (concat (drop (i + j) (chars ?s)))"
    using d e f unfolding fire3_straddled by (intro exI [of _ i] exI [of _ j] conjI)
  then show ?thesis
    by (intro conjI h fire3_straddled fire3_substring)
qed

text \<open>
  The claim C1 as it is stated fails for a grapheme of several code points. The heart
  of the table of aliases is U+2764 followed by the variation selector U+FE0F, each of
  width 1: a visible substring of width 1 holds the heart without its selector, and one
  that starts at column 1 begins with the selector of the heart before it.
\<close>

theorem grapheme_split_counterexample:
  "visibleSubstring [0x2764, 0xFE0F] 0 1 = [0x2764] \<and>
   visibleSubstring [0x2764, 0xFE0F, 0x2764, 0xFE0F] 1 2 = [0xFE0F, 0x2764]"
proof -
  have c: "chars [0x2764, 0xFE0F] = [[0x2764], [0xFE0F]]"
    "chars [0x2764, 0xFE0F, 0x2764, 0xFE0F] = [[0x2764], [0xFE0F], [0x2764], [0xFE0F]]"
    by (simp_all add: isHighSurrogate_def)
  have w: "getVisibleWidth [0x2764] = 1" "getVisibleWidth [0xFE0F] = 1"
    by (simp_all add: getVisibleWidth_sum unitWidth_single)
  show ?thesis unfolding visibleSubstring_def c by (simp add: w)
qed

lemma run_split_last:
  assumes "0 < j" and "j \<le> length rest"
  shows "take j rest = take (j - 1) rest @ [rest ! (j - 1)]"
proof -
  from assms have "j - 1 < length rest" and "j = Suc (j - 1)" by simp_all
  then show ?thesis by (metis take_Suc_conv_app_nth)
qed

text \<open>
  C10 (overshoot). For \<open>start \<ge> 0\<close> and \<open>len \<ge> 0\<close> the visual width of the result is at
  most \<open>len + 1\<close>, and it is \<open>len + 1\<close> exactly when the result is not empty, its last
  unit has width 2 and the units before it have width \<open>len - 1\<close>.
\<close>

theorem visibleSubstring_overshoot:
  assumes "0 \<le> start" and "0 \<le> len"
  shows "getVisibleWidth (visibleSubstring s start len) \<le> len + 1 \<and>
     (getVisibleWidth (visibleSubstring s start len) = len + 1 \<longleftrightarrow>
        chars (visibleSubstring s start len) \<noteq> [] \<and>
        getVisibleWidth (last (chars (visibleSubstring s start len))) = 2 \<and>
        getVisibleWidth (concat (butlast (chars (visibleSubstring s start len)))) = len - 1)"
proof -
  let ?cs = "chars s"
  let ?W = "\<lambda>xs. sum_list (map unitWidth xs)"
  let ?v = "visibleSubstring s start len"
  from visibleSubstring_run [of s start len] obtain i j where
    r: "i \<le> length ?cs \<and> j \<le> length ?cs - i \<and>
        ?v = concat (take j (drop i ?cs)) \<and>
        (0 \<le> start \<longrightarrow> ?W (take i ?cs) \<le> start) \<and>
        (i < length ?cs \<longrightarrow> start < ?W (take (Suc i) ?cs)) \<and>
        (j = length ?cs - i \<or> len \<le> ?W (take j (drop i ?cs))) \<and>
        (0 < j \<longrightarrow> ?W (take (j - 1) (drop i ?cs)) < len)"
    by (elim exE)
  from r have j: "j \<le> length (drop i ?cs)" by simp
  from r have run: "?v = concat (take j (drop i ?cs))" by simp
  from r have before: "0 < j \<longrightarrow> ?W (take (j - 1) (drop i ?cs)) < len" by simp
  have units: "chars ?v = take j (drop i ?cs)"
    by (simp only: run chars_run)
  show ?thesis
  proof (cases "j = 0")
    case True
    with run have "?v = []" by simp
    with assms(2) show ?thesis by (simp add: getVisibleWidth_Nil)
  next
    case False
    then have pos: "0 < j" by simp
    let ?l = "drop i ?cs ! (j - 1)"
    have split: "take j (drop i ?cs) = take (j - 1) (drop i ?cs) @ [?l]"
      using pos j by (rule run_split_last)
    have "?l \<in> set (take j (drop i ?cs))" by (subst split) simp
    then have "?l \<in> set ?cs" by (meson in_set_dropD in_set_takeD)
    then have wl: "getVisibleWidth ?l = unitWidth ?l" by (rule getVisibleWidth_unit)
    have ne: "chars ?v \<noteq> []" by (simp only: units split) simp
    have l: "last (chars ?v) = ?l" by (simp only: units split) simp
    have bl: "butlast (chars ?v) = take (j - 1) (drop i ?cs)"
      by (simp only: units split) simp
    have wb: "getVisibleWidth (concat (butlast (chars ?v))) = ?W (take (j - 1) (drop i ?cs))"
      by (simp only: bl width_run)
    have "getVisibleWidth ?v = ?W (take j (drop i ?cs))"
      by (simp only: run width_run)
    also have "\<dots> = ?W (take (j - 1) (drop i ?cs)) + unitWidth ?l"
      by (subst split) simp
    finally have w: "getVisibleWidth ?v = ?W (take (j - 1) (drop i ?cs)) + unitWidth ?l" .
    from before pos have lt: "?W (take (j - 1) (drop i ?cs)) < len" by simp
    from w lt ne unitWidth_cases [of ?l] show ?thesis
      unfolding l wb wl by auto
  qed
qed

theorem visibleSubstring_overshoot_witness:
  "(0::int) \<le> 1 \<and> getVisibleWidth (visibleSubstring [0xD83D, 0xDD25] 0 1) = 1 + 1 \<and>
   getVisibleWidth (visibleSubstring [0xD83D, 0xDD25] 0 1) \<le> 1 + 1 \<and>
   chars (visibleSubstring [0xD83D, 0xDD25] 0 1) \<noteq> [] \<and>
   getVisibleWidth (last (chars (visibleSubstring [0xD83D, 0xDD25] 0 1))) = 2 \<and>
   getVisibleWidth (concat (butlast (chars (visibleSubstring [0xD83D, 0xDD25] 0 1)))) = 1 - 1"
proof -
  have h0: "(0::int) \<le> 0" and h1: "(0::int) \<le> 1" by simp_all
  have v: "visibleSubstring [0xD83D, 0xDD25] 0 1 = [0xD83D, 0xDD25]"
    unfolding visibleSubstring_def fire_unit by (simp add: fire_visible_width)
  have w: "getVisibleWidth (visibleSubstring [0xD83D, 0xDD25] 0 1) = 1 + 1"
    unfolding v by (simp add: fire_visible_width)
  note t = visibleSubstring_overshoot [OF h0 h1, of "[0xD83D, 0xDD25]"]
  from t w h1 show ?thesis by simp
qed

lemma straddles_iff:
  "straddles s p \<longleftrightarrow>
     (\<exists>i < length (chars s).
        sum_list (map unitWidth (take i (chars s))) < p \<and>
        p < sum_list (map unitWidth (take (Suc i) (chars s))))"
  by (simp only: straddles_def width_take)

lemma prefix_width_inj:
  assumes "a \<le> length cs" and "b \<le> length cs"
    and "sum_list (map unitWidth (take a cs)) = sum_list (map unitWidth (take b cs))"
  shows "a = b"
proof (rule ccontr)
  assume "a \<noteq> b"
  then consider "a < b" | "b < a" by linarith
  then show False
  proof cases
    case 1
    from prefix_width_strict [OF 1 assms(2)] assms(3) show False by simp
  next
    case 2
    from prefix_width_strict [OF 2 assms(1)] assms(3) show False by simp
  qed
qed

text \<open>
  C4 (substring composition). When \<open>0 \<le> start \<le> width s\<close> and no unit of \<open>s\<close>
  straddles the position \<open>start\<close>, the visible substring of width \<open>start\<close> from 0
  followed by the visible substring from \<open>start\<close> of the remaining width is \<open>s\<close>.
\<close>

theorem substring_composition:
  assumes "0 \<le> start" and "start \<le> getVisibleWidth s" and "\<not> straddles s start"
  shows "visibleSubstring s 0 start @
           visibleSubstring s start (getVisibleWidth s - start) = s"
proof -
  let ?cs = "chars s"
  let ?n = "length ?cs"
  let ?W = "\<lambda>xs. sum_list (map unitWidth xs)"
  have total: "getVisibleWidth s = ?W ?cs" by (rule getVisibleWidth_sum)
  have nostr: "\<not> (?W (take i ?cs) < start \<and> start < ?W (take (Suc i) ?cs))"
    if "i < ?n" for i
    using assms(3) that unfolding straddles_iff by blast
  \<comment> \<open>the first piece\<close>
  from visibleSubstring_run [of s 0 start] obtain i1 j1 where
    r1: "i1 \<le> ?n \<and> j1 \<le> ?n - i1 \<and>
        visibleSubstring s 0 start = concat (take j1 (drop i1 ?cs)) \<and>
        ((0::int) \<le> 0 \<longrightarrow> ?W (take i1 ?cs) \<le> 0) \<and>
        (i1 < ?n \<longrightarrow> 0 < ?W (take (Suc i1) ?cs)) \<and>
        (j1 = ?n - i1 \<or> start \<le> ?W (take j1 (drop i1 ?cs))) \<and>
        (0 < j1 \<longrightarrow> ?W (take (j1 - 1) (drop i1 ?cs)) < start)"
    by (elim exE)
  from r1 have "?W (take i1 ?cs) \<le> 0" and "i1 \<le> ?n" by simp_all
  moreover have "int (length (take i1 ?cs)) \<le> ?W (take i1 ?cs)" by (rule sum_unitWidth_ge)
  ultimately have i1: "i1 = 0" by simp
  from r1 i1 have j1: "j1 \<le> ?n" by simp
  from r1 i1 have first: "visibleSubstring s 0 start = concat (take j1 ?cs)" by simp
  from r1 i1 have full1: "j1 = ?n \<or> start \<le> ?W (take j1 ?cs)" by simp
  from r1 i1 have before1: "0 < j1 \<longrightarrow> ?W (take (j1 - 1) ?cs) < start" by simp
  \<comment> \<open>the second piece\<close>
  from visibleSubstring_run [of s start "getVisibleWidth s - start"] obtain i2 j2 where
    r2: "i2 \<le> ?n \<and> j2 \<le> ?n - i2 \<and>
        visibleSubstring s start (getVisibleWidth s - start) = concat (take j2 (drop i2 ?cs)) \<and>
        (0 \<le> start \<longrightarrow> ?W (take i2 ?cs) \<le> start) \<and>
        (i2 < ?n \<longrightarrow> start < ?W (take (Suc i2) ?cs)) \<and>
        (j2 = ?n - i2 \<or> getVisibleWidth s - start \<le> ?W (take j2 (drop i2 ?cs))) \<and>
        (0 < j2 \<longrightarrow> ?W (take (j2 - 1) (drop i2 ?cs)) < getVisibleWidth s - start)"
    by (elim exE)
  from r2 have i2: "i2 \<le> ?n" and j2: "j2 \<le> ?n - i2" by simp_all
  from r2 have second:
    "visibleSubstring s start (getVisibleWidth s - start) = concat (take j2 (drop i2 ?cs))"
    by simp
  from r2 assms(1) have skipped: "?W (take i2 ?cs) \<le> start" by simp
  from r2 have next2: "i2 < ?n \<longrightarrow> start < ?W (take (Suc i2) ?cs)" by simp
  from r2 have full2:
    "j2 = ?n - i2 \<or> getVisibleWidth s - start \<le> ?W (take j2 (drop i2 ?cs))" by simp
  \<comment> \<open>the skipped prefix ends at start\<close>
  have at2: "?W (take i2 ?cs) = start"
  proof (cases "i2 < ?n")
    case True
    with next2 nostr [of i2] skipped show ?thesis by simp
  next
    case False
    with i2 have "take i2 ?cs = ?cs" by simp
    with skipped assms(2) total show ?thesis by simp
  qed
  \<comment> \<open>the first piece ends at start\<close>
  have ge1: "start \<le> ?W (take j1 ?cs)"
    using full1 assms(2) total by auto
  have at1: "?W (take j1 ?cs) = start"
  proof (cases "j1 = 0")
    case True
    with ge1 assms(1) show ?thesis by simp
  next
    case False
    then have "j1 - 1 < ?n" and s: "Suc (j1 - 1) = j1" using j1 by simp_all
    from nostr [OF this(1)] before1 False ge1 show ?thesis unfolding s by simp
  qed
  have same: "j1 = i2"
    using j1 i2 at1 at2 by (intro prefix_width_inj [of j1 ?cs i2]) simp_all
  \<comment> \<open>the second piece is all the rest\<close>
  have rest: "?W ?cs = ?W (take i2 ?cs) + ?W (drop i2 ?cs)"
    by (metis append_take_drop_id map_append sum_list_append)
  have all2: "j2 = ?n - i2"
  proof (rule ccontr)
    assume ne: "j2 \<noteq> ?n - i2"
    with j2 have lt: "j2 < length (drop i2 ?cs)" by simp
    have "?W (take j2 (drop i2 ?cs)) < ?W (take (length (drop i2 ?cs)) (drop i2 ?cs))"
      using lt by (intro prefix_width_strict) simp_all
    then have "?W (take j2 (drop i2 ?cs)) < ?W (drop i2 ?cs)" by simp
    with full2 ne rest at2 total show False by simp
  qed
  have "visibleSubstring s 0 start @ visibleSubstring s start (getVisibleWidth s - start) =
        concat (take i2 ?cs) @ concat (drop i2 ?cs)"
    unfolding first second same all2 by simp
  also have "\<dots> = concat ?cs"
    by (metis append_take_drop_id concat_append)
  finally show ?thesis by (simp only: concat_chars)
qed

lemma sample_no_straddle: "\<not> straddles [0x61, 0xD83D, 0xDD25] 1"
proof -
  have "\<not> (sum_list (map unitWidth (take i [[0x61], [0xD83D, 0xDD25]])) < 1 \<and>
      1 < sum_list (map unitWidth (take (Suc i) [[0x61], [0xD83D, 0xDD25 :: code_unit]])))"
    if "i < 2" for i
  proof -
    from that consider "i = 0" | "i = 1" by linarith
    then show ?thesis by cases (simp_all add: unitWidth_single)
  qed
  then show ?thesis unfolding straddles_iff sample_chars by simp
qed

lemma sample_first: "visibleSubstring [0x61, 0xD83D, 0xDD25] 0 1 = [0x61]"
  unfolding visibleSubstring_def sample_chars by (simp add: letter_width fire_visible_width)

lemma sample_second: "visibleSubstring [0x61, 0xD83D, 0xDD25] 1 2 = [0xD83D, 0xDD25]"
  unfolding visibleSubstring_def sample_chars by (simp add: letter_width fire_visible_width)

theorem substring_composition_witness:
  "(0::int) \<le> 1 \<and> 1 \<le> getVisibleWidth [0x61, 0xD83D, 0xDD25] \<and>
   \<not> straddles [0x61, 0xD83D, 0xDD25] 1 \<and>
   visibleSubstring [0x61, 0xD83D, 0xDD25] 0 1 = [0x61] \<and>
   visibleSubstring [0x61, 0xD83D, 0xDD25] 1 (getVisibleWidth [0x61, 0xD83D, 0xDD25] - 1) =
     [0xD83D, 0xDD25] \<and>
   visibleSubstring [0x61, 0xD83D, 0xDD25] 0 1 @
     visibleSubstring [0x61, 0xD83D, 0xDD25] 1 (getVisibleWidth [0x61, 0xD83D, 0xDD25] - 1) =
     [0x61, 0xD83D, 0xDD25]"
proof -
  have h1: "(0::int) \<le> 1" by simp
  have h2: "1 \<le> getVisibleWidth [0x61, 0xD83D, 0xDD25]" by (simp add: sample_width)
  note t = substring_composition [OF h1 h2 sample_no_straddle]
  have s2: "visibleSubstring [0x61, 0xD83D, 0xDD25] 1
      (getVisibleWidth [0x61, 0xD83D, 0xDD25] - 1) = [0xD83D, 0xDD25]"
    unfolding sample_width using sample_second by simp
  show ?thesis
    by (rule conjI [OF h1 conjI [OF h2 conjI [OF sample_no_straddle
          conjI [OF sample_first conjI [OF s2 t]]]]])
qed

text \<open>
  Without the hypothesis the composition fails: a wide unit that straddles the split
  point is returned by both calls.
\<close>

lemma straddle_duplicates:
  "visibleSubstring [0xD83D, 0xDD25] 0 1 @ visibleSubstring [0xD83D, 0xDD25] 1 1 =
     [0xD83D, 0xDD25, 0xD83D, 0xDD25]"
  unfolding visibleSubstring_def fire_unit by (simp add: fire_visible_width)

section \<open>The display line\<close>

lemma displayLine_spec:
  "displayLine line terminalWidth (terminalWidth - frame) =
     Inr (spec_displayLine line terminalWidth frame)"
proof (cases "0 \<le> terminalWidth - frame")
  case True
  then show ?thesis
    by (simp add: displayLine_def spec_displayLine_def String_repeat_nonneg
        concat_replicate_SPACE padToWidth_SPACE Let_def)
next
  case False
  then show ?thesis
    by (simp add: displayLine_def spec_displayLine_def padToWidth_SPACE Let_def)
qed

lemma spec_displayLine_width:
  "terminalWidth \<le> getVisibleWidth (spec_displayLine line terminalWidth frame)"
  by (simp add: spec_displayLine_def Let_def width_append_spaces)

section \<open>Blocks of writes\<close>

lemma block_write: "block e (stdout_write e chunk) [chunk] 0"
  by (simp add: block_def stdout_write_def)

lemma block_skip: "block e skip [] 0"
  by (simp add: block_def skip_def)

lemma block_sleep: "block e (sleep ms) [] 1"
  by (simp add: block_def sleep_def)

lemma block_andThen:
  assumes f: "block e f cs1 m1" and g: "block e g cs2 m2"
  shows "block e (andThen f g) (cs1 @ cs2) (m1 + m2)"
  unfolding block_def
proof (intro allI conjI impI)
  fix t :: terminal
  assume ok: "\<forall>j < length (cs1 @ cs2). \<not> writeFails e (attempts t + j)"
  then have "\<forall>j < length cs1. \<not> writeFails e (attempts t + j)" by simp
  with f have f1: "fst (f t) = None" "written (snd (f t)) = written t @ cs1"
    "attempts (snd (f t)) = attempts t + length cs1" "ticks (snd (f t)) = ticks t + m1"
    unfolding block_def by blast+
  have "\<forall>j < length cs2. \<not> writeFails e (attempts (snd (f t)) + j)"
  proof (intro allI impI)
    fix j assume "j < length cs2"
    then have "length cs1 + j < length (cs1 @ cs2)" by simp
    with ok have "\<not> writeFails e (attempts t + (length cs1 + j))" by blast
    then show "\<not> writeFails e (attempts (snd (f t)) + j)" by (simp add: f1(3) add.assoc)
  qed
  with g have g1: "fst (g (snd (f t))) = None"
    "written (snd (g (snd (f t)))) = written (snd (f t)) @ cs2"
    "attempts (snd (g (snd (f t)))) = attempts (snd (f t)) + length cs2"
    "ticks (snd (g (snd (f t)))) = ticks (snd (f t)) + m2"
    unfolding block_def by blast+
  have a: "andThen f g t = g (snd (f t))"
    using f1(1) by (cases "f t") (simp add: andThen_def)
  show "fst (andThen f g t) = None" by (simp add: a g1)
  show "written (snd (andThen f g t)) = written t @ cs1 @ cs2" by (simp add: a g1 f1)
  show "attempts (snd (andThen f g t)) = attempts t + length (cs1 @ cs2)"
    by (simp add: a g1 f1)
  show "ticks (snd (andThen f g t)) = ticks t + (m1 + m2)" by (simp add: a g1 f1)
next
  fix t :: terminal and k
  assume k: "k < length (cs1 @ cs2)"
    and first: "(\<forall>j < k. \<not> writeFails e (attempts t + j)) \<and> writeFails e (attempts t + k)"
  have "fst (andThen f g t) = Some WriteError \<and>
        attempts (snd (andThen f g t)) = attempts t + Suc k \<and>
        ticks (snd (andThen f g t)) \<le> ticks t + (m1 + m2)"
  proof (cases "k < length cs1")
    case True
    with f first have f1: "fst (f t) = Some WriteError"
      "attempts (snd (f t)) = attempts t + Suc k" "ticks (snd (f t)) \<le> ticks t + m1"
      unfolding block_def by blast+
    have a: "andThen f g t = f t"
      using f1(1) by (cases "f t") (simp add: andThen_def)
    show ?thesis using f1 by (simp add: a)
  next
    case False
    then have "\<forall>j < length cs1. \<not> writeFails e (attempts t + j)" using first by simp
    with f have f1: "fst (f t) = None"
      "attempts (snd (f t)) = attempts t + length cs1" "ticks (snd (f t)) = ticks t + m1"
      unfolding block_def by blast+
    let ?k = "k - length cs1"
    have k2: "?k < length cs2" using k False by simp
    have at: "attempts (snd (f t)) + ?k = attempts t + k" using False by (simp add: f1(2))
    have before: "\<forall>j < ?k. \<not> writeFails e (attempts (snd (f t)) + j)"
    proof (intro allI impI)
      fix j assume "j < ?k"
      then have "length cs1 + j < k" by simp
      with first have "\<not> writeFails e (attempts t + (length cs1 + j))" by blast
      then show "\<not> writeFails e (attempts (snd (f t)) + j)" by (simp add: f1(2) add.assoc)
    qed
    from first have "writeFails e (attempts (snd (f t)) + ?k)" by (simp only: at)
    with g k2 before have g1: "fst (g (snd (f t))) = Some WriteError"
      "attempts (snd (g (snd (f t)))) = attempts (snd (f t)) + Suc ?k"
      "ticks (snd (g (snd (f t)))) \<le> ticks (snd (f t)) + m2"
      unfolding block_def by blast+
    have a: "andThen f g t = g (snd (f t))"
      using f1(1) by (cases "f t") (simp add: andThen_def)
    show ?thesis using g1 f1 False by (simp add: a)
  qed
  then show "fst (andThen f g t) = Some WriteError"
    and "attempts (snd (andThen f g t)) = attempts t + Suc k"
    and "ticks (snd (andThen f g t)) \<le> ticks t + (m1 + m2)" by simp_all
qed

section \<open>The frame loop as a block of writes\<close>

lemma draw_lines_step:
  assumes "i < h" and "i < length pl"
  shows "draw_lines e pl h tw (tw - frame) i =
     andThen (stdout_write e (CLEAR_LINE @ spec_displayLine (pl ! i) tw frame))
       (andThen (if Suc i < h then stdout_write e NEWLINE else skip)
          (draw_lines e pl h tw (tw - frame) (Suc i)))"
proof (rule ext)
  fix t
  have c: "(int i < int h - 1) = (Suc i < h)" by linarith
  show "draw_lines e pl h tw (tw - frame) i t =
     andThen (stdout_write e (CLEAR_LINE @ spec_displayLine (pl ! i) tw frame))
       (andThen (if Suc i < h then stdout_write e NEWLINE else skip)
          (draw_lines e pl h tw (tw - frame) (Suc i))) t"
    by (subst draw_lines.simps)
      (simp add: assms c displayLine_spec andThen_def skip_def split: prod.splits option.splits)
qed

lemma draw_lines_end: "\<not> i < h \<Longrightarrow> draw_lines e pl h tw off i = skip"
  by (rule ext, subst draw_lines.simps) (simp add: skip_def)

lemma block_draw_lines:
  "i \<le> length pl \<Longrightarrow>
     block e (draw_lines e pl (length pl) tw (tw - frame) i) (line_chunks (drop i pl) tw frame) 0"
proof (induction "length pl - i" arbitrary: i)
  case 0
  then have "\<not> i < length pl" and "drop i pl = []" by simp_all
  then show ?case by (simp add: draw_lines_end block_skip)
next
  case (Suc n)
  then have i: "i < length pl" by simp
  let ?c = "CLEAR_LINE @ spec_displayLine (pl ! i) tw frame"
  let ?rest = "draw_lines e pl (length pl) tw (tw - frame) (Suc i)"
  have ih: "block e ?rest (line_chunks (drop (Suc i) pl) tw frame) 0"
    using Suc by (intro Suc.hyps(1)) simp_all
  have d: "drop i pl = pl ! i # drop (Suc i) pl"
    using i by (simp add: Cons_nth_drop_Suc)
  show ?case
  proof (cases "Suc i < length pl")
    case True
    then have d2: "drop (Suc i) pl = pl ! Suc i # drop (Suc (Suc i)) pl"
      by (simp add: Cons_nth_drop_Suc)
    have ch: "line_chunks (drop i pl) tw frame =
        [?c] @ [NEWLINE] @ line_chunks (drop (Suc i) pl) tw frame"
      unfolding d d2 by simp
    have "block e (andThen (stdout_write e ?c) (andThen (stdout_write e NEWLINE) ?rest))
        ([?c] @ [NEWLINE] @ line_chunks (drop (Suc i) pl) tw frame) (0 + (0 + 0))"
      by (intro block_andThen block_write ih)
    then show ?thesis using True i by (simp add: draw_lines_step ch)
  next
    case False
    with i have e: "drop (Suc i) pl = []" by simp
    have ch: "line_chunks (drop i pl) tw frame = [?c] @ [] @ line_chunks (drop (Suc i) pl) tw frame"
      unfolding d e by simp
    have "block e (andThen (stdout_write e ?c) (andThen skip ?rest))
        ([?c] @ [] @ line_chunks (drop (Suc i) pl) tw frame) (0 + (0 + 0))"
      by (intro block_andThen block_write block_skip ih)
    then show ?thesis using False i by (simp add: draw_lines_step ch)
  qed
qed

lemma block_draw_frame:
  "block e (draw_frame e pl (length pl) tw sp frame) (frame_chunks pl tw frame) 1"
proof -
  have l: "block e (draw_lines e pl (length pl) tw (tw - frame) 0) (line_chunks pl tw frame) 0"
    using block_draw_lines [of 0 pl e tw frame] by simp
  have m: "block e (if length pl > 1 then stdout_write e (MOVE_UP (length pl - 1)) else skip)
      (if length pl > 1 then [MOVE_UP (length pl - 1)] else []) 0"
    by (simp add: block_write block_skip)
  have "block e (andThen (draw_lines e pl (length pl) tw (tw - frame) 0)
        (andThen (if length pl > 1 then stdout_write e (MOVE_UP (length pl - 1)) else skip)
           (andThen (stdout_write e CURSOR_TO_START) (sleep sp))))
      (line_chunks pl tw frame @
        (if length pl > 1 then [MOVE_UP (length pl - 1)] else []) @ [CURSOR_TO_START] @ [])
      (0 + (0 + (0 + 1)))"
    by (intro block_andThen l m block_write block_sleep)
  then show ?thesis by (simp add: draw_frame_def frame_chunks_def Let_def)
qed







section \<open>The cleanup\<close>






section \<open>The cursor during the frames\<close>












section \<open>The outcomes of a guarded body\<close>









section \<open>The single cycle\<close>

lemma split_nl_nonempty: "split_nl s \<noteq> []"
  by (induction s) (auto split: list.splits)
















section \<open>Claims about the display line\<close>

lemma visibleSubstring_whole:
  assumes "getVisibleWidth s \<le> len"
  shows "visibleSubstring s 0 len = s"
proof -
  let ?cs = "chars s"
  let ?W = "\<lambda>xs. sum_list (map unitWidth xs)"
  from visibleSubstring_run [of s 0 len] obtain i j where
    r: "i \<le> length ?cs \<and> j \<le> length ?cs - i \<and>
        visibleSubstring s 0 len = concat (take j (drop i ?cs)) \<and>
        ((0::int) \<le> 0 \<longrightarrow> ?W (take i ?cs) \<le> 0) \<and>
        (i < length ?cs \<longrightarrow> 0 < ?W (take (Suc i) ?cs)) \<and>
        (j = length ?cs - i \<or> len \<le> ?W (take j (drop i ?cs))) \<and>
        (0 < j \<longrightarrow> ?W (take (j - 1) (drop i ?cs)) < len)"
    by (elim exE)
  from r have "?W (take i ?cs) \<le> 0" and "i \<le> length ?cs" by simp_all
  moreover have "int (length (take i ?cs)) \<le> ?W (take i ?cs)" by (rule sum_unitWidth_ge)
  ultimately have i: "i = 0" by simp
  from r i have j: "j \<le> length ?cs" by simp
  from r i have run: "visibleSubstring s 0 len = concat (take j ?cs)" by simp
  from r i have full: "j = length ?cs \<or> len \<le> ?W (take j ?cs)" by simp
  have "j = length ?cs"
  proof (rule ccontr)
    assume ne: "j \<noteq> length ?cs"
    with j have "j < length ?cs" by simp
    then have "?W (take j ?cs) < ?W (take (length ?cs) ?cs)"
      by (intro prefix_width_strict) simp_all
    with full ne assms show False by (simp add: getVisibleWidth_sum)
  qed
  with run show ?thesis by (simp add: concat_chars)
qed

lemma displayLine_entering:
  "0 \<le> offset \<Longrightarrow>
     displayLine line terminalWidth offset =
       padToWidth (replicate (nat offset) 0x20 @
                     visibleSubstring line 0 (terminalWidth - offset)) terminalWidth SPACE"
  by (simp add: displayLine_def String_repeat_nonneg concat_replicate_SPACE)

lemma displayLine_scrolling:
  "offset < 0 \<Longrightarrow>
     displayLine line terminalWidth offset =
       padToWidth (visibleSubstring line (- offset) terminalWidth) terminalWidth SPACE"
  by (simp add: displayLine_def Let_def)

lemma scenario_frame_0: "spec_displayLine line 10 0 = replicate 10 0x20"
  by (simp add: spec_displayLine_def Let_def visibleSubstring_no_length width_spaces)

lemma scenario_frame_10:
  "getVisibleWidth line = 4 \<Longrightarrow> spec_displayLine line 10 10 = line @ replicate 6 0x20"
  by (simp add: spec_displayLine_def Let_def visibleSubstring_whole)

text \<open>
  C2 (display line). For \<open>terminalWidth \<ge> 1\<close> and every frame, with
  \<open>offset = terminalWidth - frame\<close>: the display line of a banner line is the padding to
  \<open>terminalWidth\<close> columns of either \<open>offset\<close> spaces followed by the visible substring
  from 0 of width \<open>terminalWidth - offset\<close> (when \<open>offset \<ge> 0\<close>) or the visible substring
  from \<open>- offset\<close> of width \<open>terminalWidth\<close> (when \<open>offset < 0\<close>); this is the display line
  of the specification, it is at least \<open>terminalWidth\<close> columns wide, and a tick whose
  writes go through writes exactly the chunks made of these lines. With a terminal of 10
  columns and a banner line of width 4, the display line at frame 0 (offset 10) is 10
  spaces, and at frame 10 (offset 0) it is the line itself, padded.
\<close>

theorem display_line_per_tick:
  assumes "1 \<le> terminalWidth" and "offset = terminalWidth - frame"
  shows "(0 \<le> offset \<longrightarrow>
       displayLine line terminalWidth offset =
         padToWidth (replicate (nat offset) 0x20 @
                       visibleSubstring line 0 (terminalWidth - offset)) terminalWidth SPACE) \<and>
     (offset < 0 \<longrightarrow>
       displayLine line terminalWidth offset =
         padToWidth (visibleSubstring line (- offset) terminalWidth) terminalWidth SPACE) \<and>
     displayLine line terminalWidth offset = Inr (spec_displayLine line terminalWidth frame) \<and>
     terminalWidth \<le> getVisibleWidth (spec_displayLine line terminalWidth frame) \<and>
     ((\<forall>j < length (frame_chunks pl terminalWidth frame). \<not> writeFails e (attempts t + j)) \<longrightarrow>
        written (snd (draw_frame e pl (length pl) terminalWidth sp frame t)) =
          written t @ frame_chunks pl terminalWidth frame) \<and>
     (getVisibleWidth line = 4 \<longrightarrow>
        displayLine line 10 (10 - 0) = Inr (replicate 10 0x20) \<and>
        displayLine line 10 (10 - 10) = Inr (line @ replicate 6 0x20))"
proof -
  have a: "0 \<le> offset \<longrightarrow>
       displayLine line terminalWidth offset =
         padToWidth (replicate (nat offset) 0x20 @
                       visibleSubstring line 0 (terminalWidth - offset)) terminalWidth SPACE"
    by (simp add: displayLine_entering)
  have b: "offset < 0 \<longrightarrow>
       displayLine line terminalWidth offset =
         padToWidth (visibleSubstring line (- offset) terminalWidth) terminalWidth SPACE"
    by (simp add: displayLine_scrolling)
  have c: "displayLine line terminalWidth offset = Inr (spec_displayLine line terminalWidth frame)"
    unfolding assms(2) by (rule displayLine_spec)
  have d: "terminalWidth \<le> getVisibleWidth (spec_displayLine line terminalWidth frame)"
    by (rule spec_displayLine_width)
  have f: "(\<forall>j < length (frame_chunks pl terminalWidth frame). \<not> writeFails e (attempts t + j)) \<longrightarrow>
        written (snd (draw_frame e pl (length pl) terminalWidth sp frame t)) =
          written t @ frame_chunks pl terminalWidth frame"
    using block_draw_frame [of e pl terminalWidth sp frame] unfolding block_def by blast
  have g: "getVisibleWidth line = 4 \<longrightarrow>
        displayLine line 10 (10 - 0) = Inr (replicate 10 0x20) \<and>
        displayLine line 10 (10 - 10) = Inr (line @ replicate 6 0x20)"
    by (simp only: displayLine_spec) (simp add: scenario_frame_0 scenario_frame_10)
  from a b c d f g show ?thesis by (intro conjI)
qed

lemma abcd_chars: "chars [0x61, 0x62, 0x63, 0x64] = [[0x61], [0x62], [0x63], [0x64]]"
  by (simp add: isHighSurrogate_def)

lemma abcd_width: "getVisibleWidth [0x61, 0x62, 0x63, 0x64] = 4"
  unfolding getVisibleWidth_sum abcd_chars by (simp add: unitWidth_single)

theorem display_line_per_tick_witness:
  "(1::int) \<le> 10 \<and> getVisibleWidth [0x61, 0x62, 0x63, 0x64] = 4 \<and>
   displayLine [0x61, 0x62, 0x63, 0x64] 10 (10 - 0) = Inr (replicate 10 0x20) \<and>
   displayLine [0x61, 0x62, 0x63, 0x64] 10 (10 - 10) =
     Inr ([0x61, 0x62, 0x63, 0x64] @ replicate 6 0x20) \<and>
   displayLine [0x61, 0x62, 0x63, 0x64] 10 (10 - 12) =
     padToWidth (visibleSubstring [0x61, 0x62, 0x63, 0x64] 2 10) 10 SPACE \<and>
   written (snd (draw_frame \<lparr>columns = None, writeFails = \<lambda>n. False\<rparr> [[0x61, 0x62, 0x63, 0x64]]
       (length [[0x61, 0x62, 0x63, 0x64 :: code_unit]]) 10 (Some 100) 0
       \<lparr>written = [], cursorHidden = True, attempts = 0, ticks = 0\<rparr>)) =
     frame_chunks [[0x61, 0x62, 0x63, 0x64]] 10 0"
proof -
  let ?e = "\<lparr>columns = None, writeFails = \<lambda>n. False\<rparr>"
  let ?t = "\<lparr>written = [], cursorHidden = True, attempts = 0, ticks = 0\<rparr>"
  let ?l = "[0x61, 0x62, 0x63, 0x64] :: jsstring"
  have h: "(1::int) \<le> 10" by simp
  note t0 = display_line_per_tick [OF h refl, of 0 ?l "[?l]" ?e ?t "Some 100"]
  note t12 = display_line_per_tick [OF h refl, of 12 ?l]
  have nf: "\<forall>j < length (frame_chunks [?l] 10 0). \<not> writeFails ?e (attempts ?t + j)"
    by simp
  note sc = t0 [THEN conjunct2, THEN conjunct2, THEN conjunct2, THEN conjunct2,
      THEN conjunct2, THEN mp, OF abcd_width]
  note fr = t0 [THEN conjunct2, THEN conjunct2, THEN conjunct2, THEN conjunct2,
      THEN conjunct1, THEN mp, OF nf]
  have neg: "(10::int) - 12 < 0" by simp
  note scr = t12 [THEN conjunct2, THEN conjunct1, THEN mp, OF neg]
  have 1: "displayLine ?l 10 (10 - 12) = padToWidth (visibleSubstring ?l 2 10) 10 SPACE"
    using scr by simp
  have 2: "written (snd (draw_frame ?e [?l] (length [?l]) 10 (Some 100) 0 ?t)) = frame_chunks [?l] 10 0"
    using fr by simp
  show ?thesis
    by (rule conjI [OF h conjI [OF abcd_width conjI [OF sc [THEN conjunct1]
          conjI [OF sc [THEN conjunct2] conjI [OF 1 2]]]]])
qed

end
